theory Spec2Isabelle
  imports Main
begin

section \<open>Strings and arrays of the host language\<close>

text \<open>
  A \<^verbatim>\<open>Buffer\<close> is a list of bytes. A string is held as the bytes of its UTF-8
  encoding: the strings of this program come out of a UTF-8 decoder, so they hold no
  lone surrogate and the encoding loses nothing; joining strings joins the encodings,
  a string is empty when its encoding is, and the line feed is the byte \<open>0A\<close>, which
  is part of no longer sequence.
\<close>

definition newline :: char where
  "newline = CHR 0x0A"

text \<open>
  \<^verbatim>\<open>chunk.toString()\<close>: the UTF-8 decoder that every \<^verbatim>\<open>Buffer\<close> is read with. A
  well-formed sequence is taken as it is; each maximal ill-formed part, and a sequence
  cut short by the end of the buffer, becomes \<open>U+FFFD\<close>, and the byte that broke a
  sequence is read again as the start of the next one. \<open>needed\<close> counts the
  continuation bytes still to come, \<open>lower\<close> and \<open>upper\<close> bound the next one, \<open>seen\<close>
  holds the bytes of the sequence so far.
\<close>

definition replacement :: string where
  "replacement = [CHR 0xEF, CHR 0xBF, CHR 0xBD]"

datatype lead = Ascii | Lead nat nat nat | Invalid

definition classify :: "char \<Rightarrow> lead" where
  "classify b =
     (let n = (of_char b :: nat) in
      if n \<le> 0x7F then Ascii
      else if 0xC2 \<le> n \<and> n \<le> 0xDF then Lead 1 0x80 0xBF
      else if 0xE0 \<le> n \<and> n \<le> 0xEF then
        Lead 2 (if n = 0xE0 then 0xA0 else 0x80) (if n = 0xED then 0x9F else 0xBF)
      else if 0xF0 \<le> n \<and> n \<le> 0xF4 then
        Lead 3 (if n = 0xF0 then 0x90 else 0x80) (if n = 0xF4 then 0x8F else 0xBF)
      else Invalid)"

fun utf8_decode :: "nat \<Rightarrow> nat \<Rightarrow> nat \<Rightarrow> string \<Rightarrow> string \<Rightarrow> string" where
  "utf8_decode needed lower upper seen [] = (if needed = 0 then [] else replacement)"
| "utf8_decode needed lower upper seen (b # bs) =
     (if needed \<noteq> 0 \<and> lower \<le> of_char b \<and> of_char b \<le> upper then
        (if needed = 1 then seen @ [b] @ utf8_decode 0 0x80 0xBF [] bs
         else utf8_decode (needed - 1) 0x80 0xBF (seen @ [b]) bs)
      else (if needed \<noteq> 0 then replacement else []) @
        (case classify b of
           Ascii \<Rightarrow> b # utf8_decode 0 0x80 0xBF [] bs
         | Lead n lo hi \<Rightarrow> utf8_decode n lo hi [b] bs
         | Invalid \<Rightarrow> replacement @ utf8_decode 0 0x80 0xBF [] bs))"

definition toString :: "string \<Rightarrow> string" where
  "toString chunk = utf8_decode 0 0x80 0xBF [] chunk"

text \<open>\<^verbatim>\<open>str.split("\n")\<close>: the pieces between separators; never the empty array.\<close>

fun split_nl :: "string \<Rightarrow> string list" where
  "split_nl [] = [[]]"
| "split_nl (c # cs) =
     (if c = newline then [] # split_nl cs
      else (case split_nl cs of
              [] \<Rightarrow> [[c]]
            | p # ps \<Rightarrow> (c # p) # ps))"

text \<open>
  \<^verbatim>\<open>Array.prototype.slice\<close>: a negative index counts from the end, and every index
  is clamped to the array.
\<close>

definition js_index :: "int \<Rightarrow> nat \<Rightarrow> nat" where
  "js_index k len = (if k < 0 then nat (max (int len + k) 0) else min (nat k) len)"

definition slice :: "int \<Rightarrow> int \<Rightarrow> 'a list \<Rightarrow> 'a list" where
  "slice start fin xs =
     (let a = js_index start (length xs); b = js_index fin (length xs)
      in take (b - a) (drop a xs))"

definition slice_from :: "int \<Rightarrow> 'a list \<Rightarrow> 'a list" where
  "slice_from start xs = drop (js_index start (length xs)) xs"

text \<open>\<^verbatim>\<open>toLines :: String -> [ [String], String ]\<close>\<close>

definition toLines :: "string \<Rightarrow> string list \<times> string" where
  "toLines str =
     (let lines = split_nl str
      in (slice 0 (- 1) lines, concat (slice_from (int (length lines) - 1) lines)))"

text \<open>The decimal numeral that a template literal prints for an array length.\<close>

definition digit_char :: "nat \<Rightarrow> char" where
  "digit_char d = ''0123456789'' ! d"

function show_nat :: "nat \<Rightarrow> string" where
  "show_nat n = (if n < 10 then [digit_char n] else show_nat (n div 10) @ [digit_char (n mod 10)])"
  by pat_completeness auto
termination
  by (relation "measure (\<lambda>n. n)") auto

declare show_nat.simps [simp del]

section \<open>The stream a stage sees\<close>

text \<open>
  A stage is a \<^verbatim>\<open>ReadySignalingTransform\<close>. What it does to the stream runtime is
  recorded as a trace: every \<^verbatim>\<open>push\<close> with the value pushed and the answer the
  runtime gave (\<open>False\<close>: declined, the consumer is behind), \<^verbatim>\<open>push(null)\<close>, every
  call of the completion callback, every message handed to the logger, and the two
  statements of \<^verbatim>\<open>_read\<close>. The answers of the runtime are a parameter: the schedule
  gives the answer to the \<open>k\<close>-th push of the stage.
\<close>

datatype 'o event =
    Push 'o bool
  | PushEOF
  | Callback
  | Log string
  | SuperRead
  | EmitReady

type_synonym sched = "nat \<Rightarrow> bool"

record ('o, 'l, 'v) stream =
  trace :: "'o event list"
  npush :: nat
  listeners :: "'l list"
  vars :: 'v

definition new_stream :: "'v \<Rightarrow> ('o, 'l, 'v) stream" where
  "new_stream v = \<lparr>trace = [], npush = 0, listeners = [], vars = v\<rparr>"

definition push :: "sched \<Rightarrow> 'o \<Rightarrow> ('o, 'l, 'v) stream \<Rightarrow> bool \<times> ('o, 'l, 'v) stream" where
  "push s x st =
     (s (npush st), st\<lparr>trace := trace st @ [Push x (s (npush st))], npush := Suc (npush st)\<rparr>)"

definition push_null :: "('o, 'l, 'v) stream \<Rightarrow> ('o, 'l, 'v) stream" where
  "push_null st = st\<lparr>trace := trace st @ [PushEOF]\<rparr>"

definition callback :: "('o, 'l, 'v) stream \<Rightarrow> ('o, 'l, 'v) stream" where
  "callback st = st\<lparr>trace := trace st @ [Callback]\<rparr>"

definition logger :: "string \<Rightarrow> ('o, 'l, 'v) stream \<Rightarrow> ('o, 'l, 'v) stream" where
  "logger message st = st\<lparr>trace := trace st @ [Log message]\<rparr>"

text \<open>\<^verbatim>\<open>this.once('ready', l)\<close>: the listener joins the end of the list.\<close>

definition once_ready :: "'l \<Rightarrow> ('o, 'l, 'v) stream \<Rightarrow> ('o, 'l, 'v) stream" where
  "once_ready l st = st\<lparr>listeners := listeners st @ [l]\<rparr>"

text \<open>
  \<^verbatim>\<open>this.emit("ready")\<close> calls the listeners registered so far, in order; each was
  registered with \<^verbatim>\<open>once\<close> and is gone when it runs. A listener is a closure of the
  stage; \<open>run\<close> is the stage's reading of its closures. A listener that does not return
  (\<open>None\<close>) leaves the emission without a result.
\<close>

fun emit_all :: "('l \<Rightarrow> 's \<Rightarrow> 's option) \<Rightarrow> 'l list \<Rightarrow> 's \<Rightarrow> 's option" where
  "emit_all run [] st = Some st"
| "emit_all run (l # ls) st = Option.bind (run l st) (emit_all run ls)"

text \<open>
  \<^verbatim>\<open>_read(size) { super._read(size); this.emit("ready") }\<close>. The call into the base
  class is recorded and nothing more is said about it.
\<close>

definition ReadySignalingTransform_read ::
  "('l \<Rightarrow> ('o, 'l, 'v) stream \<Rightarrow> ('o, 'l, 'v) stream option)
     \<Rightarrow> ('o, 'l, 'v) stream \<Rightarrow> ('o, 'l, 'v) stream option" where
  "ReadySignalingTransform_read run st =
     (let st1 = st\<lparr>trace := trace st @ [SuperRead]\<rparr>;
          ls = listeners st1;
          st2 = st1\<lparr>trace := trace st1 @ [EmitReady], listeners := []\<rparr>
      in emit_all run ls st2)"

text \<open>
  The runtime the stages are written for, as the comment on the class describes it: when
  the consumer wants more data it calls \<^verbatim>\<open>_read\<close>, and it does so again for as long as
  a listener is waiting. Every readiness signal a stage waits for arrives here; a run in
  which one does not arrive is outside this function, and is the subject of the section
  on the base class. Whether the loop ends depends on the listeners: \<open>None\<close> when it
  does not.
\<close>

partial_function (option) settle ::
  "('l \<Rightarrow> ('o, 'l, 'v) stream \<Rightarrow> ('o, 'l, 'v) stream option)
     \<Rightarrow> ('o, 'l, 'v) stream \<Rightarrow> ('o, 'l, 'v) stream option" where
  "settle run st =
     (if listeners st = [] then Some st
      else Option.bind (ReadySignalingTransform_read run st) (settle run))"

declare settle.simps [code]

text \<open>The values a trace pushed, in order.\<close>

fun pushes :: "'o event list \<Rightarrow> 'o list" where
  "pushes [] = []"
| "pushes (Push x b # es) = x # pushes es"
| "pushes (e # es) = pushes es"

section \<open>The LineSplitter: \<^verbatim>\<open>createAccountNumberParserStream\<close>\<close>

text \<open>The closure variable \<^verbatim>\<open>rest\<close> is the stage's state; it starts empty.\<close>

datatype parser_listener = TransformCallback

type_synonym parser = "(string list, parser_listener, string) stream"

definition parser_transform :: "sched \<Rightarrow> string \<Rightarrow> parser \<Rightarrow> parser" where
  "parser_transform s chunk st =
     (case toLines (vars st @ toString chunk) of (lines, rem) \<Rightarrow>
        (case push s lines st of (more', st1) \<Rightarrow>
           (let st2 = st1\<lparr>vars := rem\<rparr>
            in if \<not> more' then once_ready TransformCallback st2 else callback st2)))"

datatype error = LeftOverData

definition parser_flush :: "sched \<Rightarrow> parser \<Rightarrow> error + parser" where
  "parser_flush s st =
     (if length (vars st) > 0 then
        (case toLines (vars st) of (lines, rem) \<Rightarrow>
           if rem \<noteq> [] then Inl LeftOverData
           else Inr (callback (push_null (snd (push s lines st)))))
      else Inr (callback (push_null st)))"

definition parser_ready :: "parser_listener \<Rightarrow> parser \<Rightarrow> parser option" where
  "parser_ready l st = (case l of TransformCallback \<Rightarrow> Some (callback st))"

text \<open>The chunks of the source, written one after the other, each to completion.\<close>

fun parser_writes :: "sched \<Rightarrow> string list \<Rightarrow> parser \<Rightarrow> parser option" where
  "parser_writes s [] st = Some st"
| "parser_writes s (chunk # chunks) st =
     Option.bind (settle parser_ready (parser_transform s chunk st)) (parser_writes s chunks)"

definition parser_run :: "sched \<Rightarrow> string list \<Rightarrow> (error + parser) option" where
  "parser_run s chunks =
     Option.bind (parser_writes s chunks (new_stream [])) (\<lambda>st. Some (parser_flush s st))"

text \<open>The Records a LineSplitter trace emitted: its groups, flattened.\<close>

definition records :: "string list event list \<Rightarrow> string list" where
  "records tr = concat (pushes tr)"

section \<open>The Batcher: \<^verbatim>\<open>createAccountNumberBufferStream\<close>\<close>

text \<open>
  \<^verbatim>\<open>const batchSize = parseInt(process.env.BATCH_SIZE, 10) || 10\<close>, where \<open>None\<close> is
  the \<^verbatim>\<open>NaN\<close> of a variable that is unset or not a number. The result is never \<open>0\<close>.
\<close>

definition batchSize :: "int option \<Rightarrow> int" where
  "batchSize env = (case env of None \<Rightarrow> 10 | Some n \<Rightarrow> if n = 0 then 10 else n)"

text \<open>
  The closure variable \<^verbatim>\<open>numbers\<close> is the stage's state. A listener is the closure
  \<^verbatim>\<open>() => pushAccountNumbersInBatches.call(this, numbers, callback)\<close> with the
  \<^verbatim>\<open>numbers\<close> left when the push was declined.
\<close>

datatype batcher_listener = PushAccountNumbersInBatches "string list"

type_synonym batcher = "(string list, batcher_listener, string list) stream"

text \<open>
  The \<^verbatim>\<open>while\<close> loop of \<^verbatim>\<open>pushAccountNumbersInBatches\<close>. With a batch size below
  \<open>1\<close> and a runtime that accepts every push it never ends: the value is \<open>None\<close>.
\<close>

partial_function (option) batches_loop ::
  "sched \<Rightarrow> int \<Rightarrow> string list \<Rightarrow> bool \<Rightarrow> batcher \<Rightarrow> (string list \<times> bool \<times> batcher) option" where
  "batches_loop s B numbers more' st =
     (if int (length numbers) \<ge> B \<and> more' then
        (case push s (slice 0 B numbers) st of (more'', st') \<Rightarrow>
           batches_loop s B (slice_from B numbers) more'' st')
      else Some (numbers, more', st))"

declare batches_loop.simps [code]

definition pushAccountNumbersInBatches ::
  "sched \<Rightarrow> int \<Rightarrow> string list \<Rightarrow> batcher \<Rightarrow> batcher option" where
  "pushAccountNumbersInBatches s B numbers st =
     Option.bind (batches_loop s B numbers True st)
       (\<lambda>(numbers', more', st').
          Some (if \<not> more' then once_ready (PushAccountNumbersInBatches numbers') st'
                else callback (st'\<lparr>vars := numbers'\<rparr>)))"

definition batcher_transform :: "sched \<Rightarrow> int \<Rightarrow> string list \<Rightarrow> batcher \<Rightarrow> batcher option" where
  "batcher_transform s B chunk st =
     (let st1 = st\<lparr>vars := vars st @ chunk\<rparr>
      in pushAccountNumbersInBatches s B (vars st1) st1)"

definition batcher_flush :: "sched \<Rightarrow> batcher \<Rightarrow> batcher" where
  "batcher_flush s st =
     (let st1 = (if length (vars st) > 0 then snd (push s (vars st) st) else st)
      in callback (push_null st1))"

definition batcher_ready :: "sched \<Rightarrow> int \<Rightarrow> batcher_listener \<Rightarrow> batcher \<Rightarrow> batcher option" where
  "batcher_ready s B l st =
     (case l of PushAccountNumbersInBatches numbers \<Rightarrow> pushAccountNumbersInBatches s B numbers st)"

text \<open>The groups of the LineSplitter, written one after the other, each to completion.\<close>

fun batcher_writes :: "sched \<Rightarrow> int \<Rightarrow> string list list \<Rightarrow> batcher \<Rightarrow> batcher option" where
  "batcher_writes s B [] st = Some st"
| "batcher_writes s B (chunk # chunks) st =
     Option.bind (Option.bind (batcher_transform s B chunk st) (settle (batcher_ready s B)))
       (batcher_writes s B chunks)"


section \<open>The Formatter: \<^verbatim>\<open>createBackfillStream\<close>\<close>

text \<open>
  A listener is the closure \<^verbatim>\<open>() => { printSql.call(this, statements.slice(i+1), callback) }\<close>
  with the statements after the declined line.
\<close>

datatype formatter_listener = PrintSql "string list"

type_synonym formatter = "(string, formatter_listener, unit) stream"

text \<open>The \<^verbatim>\<open>for\<close> loop of \<^verbatim>\<open>printSql\<close> from index \<open>i\<close>, and the statement after it.\<close>

function printSql_loop :: "sched \<Rightarrow> string list \<Rightarrow> nat \<Rightarrow> bool \<Rightarrow> formatter \<Rightarrow> formatter" where
  "printSql_loop s statements i more' st =
     (if i < length statements then
        (case push s (statements ! i @ [newline]) st of (more'', st') \<Rightarrow>
           if \<not> more'' then once_ready (PrintSql (slice_from (int i + 1) statements)) st'
           else printSql_loop s statements (i + 1) more'' st')
      else if more' then callback st else st)"
  by pat_completeness auto
termination
  by (relation "measure (\<lambda>(s, statements, i, more', st). length statements - i)") auto

declare printSql_loop.simps [simp del]

definition printSql :: "sched \<Rightarrow> string list \<Rightarrow> formatter \<Rightarrow> formatter" where
  "printSql s statements st = printSql_loop s statements 0 True st"

definition formatter_transform :: "sched \<Rightarrow> string list \<Rightarrow> formatter \<Rightarrow> formatter" where
  "formatter_transform s numbers st =
     printSql s numbers
       (logger (''Back-filling '' @ show_nat (length numbers) @ '' account numbers'') st)"


definition formatter_ready :: "sched \<Rightarrow> formatter_listener \<Rightarrow> formatter \<Rightarrow> formatter option" where
  "formatter_ready s l st = (case l of PrintSql statements \<Rightarrow> Some (printSql s statements st))"


text \<open>The messages a trace handed to the logger, in order.\<close>

fun logged :: "'o event list \<Rightarrow> string list" where
  "logged [] = []"
| "logged (Log m # es) = m # logged es"
| "logged (e # es) = logged es"

section \<open>What a run emits\<close>

text \<open>
  The Records the LineSplitter has emitted and the Carry it holds once the chunks are
  written, and the Batches the Batcher has emitted once it is ended.
\<close>

definition emitted_records :: "sched \<Rightarrow> string list \<Rightarrow> string list option" where
  "emitted_records s chunks =
     map_option (\<lambda>st. records (trace st)) (parser_writes s chunks (new_stream []))"

definition carry_after :: "sched \<Rightarrow> string list \<Rightarrow> string option" where
  "carry_after s chunks = map_option vars (parser_writes s chunks (new_stream []))"


section \<open>The command line\<close>

text \<open>
  What the script does to the process, in order. \<open>argv\<close> is \<^verbatim>\<open>process.argv\<close>: the
  interpreter, the script, then the positional arguments. \<^verbatim>\<open>path.resolve\<close> throws on
  an argument that is \<^verbatim>\<open>undefined\<close>, which rejects the promise of \<^verbatim>\<open>main\<close>.
\<close>

datatype effect =
    ConsoleError string
  | ProcessExit nat
  | CreateReadStream string
  | CreateWriteStream string
  | BackfillEvents
  | Rejected

definition usage :: "string list \<Rightarrow> string" where
  "usage argv =
     ''Usage: '' @ (if 1 < length argv then argv ! 1 else ''undefined'') @ '' <in> <sql> <log>''"

fun main :: "string list \<Rightarrow> effect list" where
  "main (inp # sql # log # args) =
     [CreateReadStream inp, CreateWriteStream sql, CreateWriteStream log, BackfillEvents]"
| "main [inp, sql] = [CreateReadStream inp, CreateWriteStream sql, Rejected]"
| "main [inp] = [CreateReadStream inp, Rejected]"
| "main [] = [Rejected]"

definition script :: "string list \<Rightarrow> effect list" where
  "script argv =
     (if length argv < 5 then [ConsoleError (usage argv), ProcessExit 1]
      else main (slice_from 2 argv))"

section \<open>The base class: \<^verbatim>\<open>Transform\<close> of \<^verbatim>\<open>node:stream\<close>\<close>

text \<open>
  A stage is an object of the base class, and the base class decides when its handlers
  run. This is what the base class keeps for a stage whose readable side is in object
  mode (the LineSplitter and the Batcher, both with a high-water mark of \<open>1\<close>) and
  whose consumer takes the data with \<^verbatim>\<open>read()\<close>, as a piped consumer does when it
  resumes the stream after it had paused it:
  \<^item> the readable buffer, and the flag \<^verbatim>\<open>reading\<close>, set when \<^verbatim>\<open>_read\<close> is called and
    cleared by every \<^verbatim>\<open>push\<close>; while it is set, \<^verbatim>\<open>read()\<close> does not call \<^verbatim>\<open>_read\<close>;
  \<^item> the callback that \<^verbatim>\<open>_write\<close> gives to \<^verbatim>\<open>transform\<close>: it ends the write at once when
    the writable side has been ended, when the buffer is as long as it was when the
    write began, or when the buffer is below the mark; otherwise the callback is kept
    (\<^verbatim>\<open>kCallback\<close>) and called by the next \<^verbatim>\<open>_read\<close> of the base class;
  \<^item> the writable side: one write at a time, the chunks written meanwhile in a buffer,
    and \<^verbatim>\<open>flush\<close> once the stream has been ended and every write has completed.
\<close>

datatype range_error = ERR_INVALID_ARG_VALUE

datatype stream_error = Thrown error | ERR_STREAM_WRITE_AFTER_END

text \<open>
  The handlers a stage passes to the constructor, each run with the answers its pushes
  will get; and the state of the stream: the stage's own state and trace,
  \<^verbatim>\<open>readableHighWaterMark\<close>, the buffer of the readable side (its length is
  \<^verbatim>\<open>readableState.length\<close>), \<^verbatim>\<open>readableState.reading\<close> and \<^verbatim>\<open>ended\<close>, whether a
  callback is kept, the length that \<^verbatim>\<open>_write\<close> noted, \<^verbatim>\<open>writableState.writing\<close>, the
  buffer of the writable side, whether \<^verbatim>\<open>end\<close> was called, whether \<^verbatim>\<open>flush\<close> has called
  back, and the error of the stream.
\<close>

record ('i, 'o, 'l, 'v) stage_code =
  on_transform :: "sched \<Rightarrow> 'i \<Rightarrow> ('o, 'l, 'v) stream \<Rightarrow> ('o, 'l, 'v) stream option"
  on_ready :: "sched \<Rightarrow> 'l \<Rightarrow> ('o, 'l, 'v) stream \<Rightarrow> ('o, 'l, 'v) stream option"
  on_flush :: "sched \<Rightarrow> ('o, 'l, 'v) stream \<Rightarrow> error + ('o, 'l, 'v) stream"

record ('i, 'o, 'l, 'v) transform_stream =
  stage :: "('o, 'l, 'v) stream"
  highWaterMark :: nat
  rbuffer :: "'o list"
  reading :: bool
  rended :: bool
  kCallback :: bool
  length0 :: nat
  writing :: bool
  buffered :: "'i list"
  wended :: bool
  finished :: bool
  errored :: "stream_error option"

definition new_transform :: "nat \<Rightarrow> 'v \<Rightarrow> ('i, 'o, 'l, 'v) transform_stream" where
  "new_transform hwm v =
     \<lparr>stage = new_stream v, highWaterMark = hwm, rbuffer = [], reading = False, rended = False,
      kCallback = False, length0 = 0, writing = False, buffered = [], wended = False,
      finished = False, errored = None\<rparr>"

text \<open>
  \<^verbatim>\<open>push\<close> answers whether the buffer, with the chunk in it, is below the mark. While a
  handler of the stage runs nothing is taken from the buffer, so its \<open>k\<close>-th push finds
  the buffer one longer than the push before.
\<close>

definition answers :: "('i, 'o, 'l, 'v) transform_stream \<Rightarrow> sched" where
  "answers t = (\<lambda>k. length (rbuffer t) + (k - npush (stage t)) + 1 < highWaterMark t)"

text \<open>
  A handler runs on the stage's own state; what it did to the stream is read off the
  events it added to the trace. Every push joins the buffer and clears \<^verbatim>\<open>reading\<close>,
  \<^verbatim>\<open>push(null)\<close> ends the readable side. Each handler of the stages calls back as its
  last statement, so the callback is dealt with after the pushes.
\<close>

definition absorb ::
  "('o, 'l, 'v) stream \<Rightarrow> ('i, 'o, 'l, 'v) transform_stream \<Rightarrow> ('i, 'o, 'l, 'v) transform_stream" where
  "absorb st' t =
     (let new = drop (length (trace (stage t))) (trace st')
      in t\<lparr>stage := st',
           rbuffer := rbuffer t @ pushes new,
           reading := (reading t \<and> pushes new = [] \<and> PushEOF \<notin> set new),
           rended := (rended t \<or> PushEOF \<in> set new)\<rparr>)"

definition called_back :: "('o, 'l, 'v) stream \<Rightarrow> ('i, 'o, 'l, 'v) transform_stream \<Rightarrow> bool" where
  "called_back st' t = (Callback \<in> set (drop (length (trace (stage t))) (trace st')))"

text \<open>
  The chunks in the buffer of the writable side are written one after the other for as
  long as each write completes: \<^verbatim>\<open>_write\<close> notes the length of the readable buffer and
  calls \<^verbatim>\<open>transform\<close>; when the stage calls back, the write ends at once or the callback
  is kept, as said above; when it does not call back, the write stays in progress.
\<close>

partial_function (option) clearBuffer ::
  "('i, 'o, 'l, 'v) stage_code \<Rightarrow> ('i, 'o, 'l, 'v) transform_stream
     \<Rightarrow> ('i, 'o, 'l, 'v) transform_stream option" where
  "clearBuffer h t =
     (case buffered t of
        [] \<Rightarrow> Some t
      | chunk # rest \<Rightarrow>
          (let t1 = t\<lparr>buffered := rest, writing := True, length0 := length (rbuffer t)\<rparr>
           in case on_transform h (answers t1) chunk (stage t1) of
                None \<Rightarrow> None
              | Some st' \<Rightarrow>
                  (let t2 = absorb st' t1
                   in if called_back st' t1 then
                        (if wended t2 \<or> length0 t2 = length (rbuffer t2)
                            \<or> length (rbuffer t2) < highWaterMark t2
                         then clearBuffer h (t2\<lparr>writing := False\<rparr>)
                         else Some (t2\<lparr>kCallback := True\<rparr>))
                      else Some t2)))"

declare clearBuffer.simps [code]

text \<open>
  When the writable side has been ended and nothing is left to write, \<^verbatim>\<open>flush\<close> runs;
  what it throws is the error of the stream.
\<close>

definition finishMaybe ::
  "('i, 'o, 'l, 'v) stage_code \<Rightarrow> ('i, 'o, 'l, 'v) transform_stream
     \<Rightarrow> ('i, 'o, 'l, 'v) transform_stream" where
  "finishMaybe h t =
     (if wended t \<and> \<not> writing t \<and> buffered t = [] \<and> \<not> finished t \<and> errored t = None then
        (case on_flush h (answers t) (stage t) of
           Inl e \<Rightarrow> t\<lparr>errored := Some (Thrown e)\<rparr>
         | Inr st' \<Rightarrow> (absorb st' t)\<lparr>finished := True\<rparr>)
      else t)"

text \<open>A write completes: the next chunks are written, then the stream may finish.\<close>

definition onwrite ::
  "('i, 'o, 'l, 'v) stage_code \<Rightarrow> ('i, 'o, 'l, 'v) transform_stream
     \<Rightarrow> ('i, 'o, 'l, 'v) transform_stream option" where
  "onwrite h t = map_option (finishMaybe h) (clearBuffer h (t\<lparr>writing := False\<rparr>))"

text \<open>The callback that \<^verbatim>\<open>_write\<close> gave, called while the write is in progress.\<close>

definition transform_callback ::
  "('i, 'o, 'l, 'v) stage_code \<Rightarrow> ('i, 'o, 'l, 'v) transform_stream
     \<Rightarrow> ('i, 'o, 'l, 'v) transform_stream option" where
  "transform_callback h t =
     (if wended t \<or> length0 t = length (rbuffer t) \<or> length (rbuffer t) < highWaterMark t
      then onwrite h t
      else Some (t\<lparr>kCallback := True\<rparr>))"

text \<open>
  \<^verbatim>\<open>write\<close>: an error after \<^verbatim>\<open>end\<close>; into the buffer while a write is in progress;
  otherwise written at once.
\<close>

definition Writable_write ::
  "('i, 'o, 'l, 'v) stage_code \<Rightarrow> 'i \<Rightarrow> ('i, 'o, 'l, 'v) transform_stream
     \<Rightarrow> ('i, 'o, 'l, 'v) transform_stream option" where
  "Writable_write h chunk t =
     (if wended t then Some (t\<lparr>errored := Some ERR_STREAM_WRITE_AFTER_END\<rparr>)
      else if writing t then Some (t\<lparr>buffered := buffered t @ [chunk]\<rparr>)
      else map_option (finishMaybe h) (clearBuffer h (t\<lparr>buffered := buffered t @ [chunk]\<rparr>)))"

definition Writable_end ::
  "('i, 'o, 'l, 'v) stage_code \<Rightarrow> ('i, 'o, 'l, 'v) transform_stream
     \<Rightarrow> ('i, 'o, 'l, 'v) transform_stream" where
  "Writable_end h t = finishMaybe h (t\<lparr>wended := True\<rparr>)"

text \<open>\<^verbatim>\<open>_read\<close> of the base class: a callback that was kept is called now.\<close>

definition Transform_read ::
  "('i, 'o, 'l, 'v) stage_code \<Rightarrow> ('i, 'o, 'l, 'v) transform_stream
     \<Rightarrow> ('i, 'o, 'l, 'v) transform_stream option" where
  "Transform_read h t = (if kCallback t then onwrite h (t\<lparr>kCallback := False\<rparr>) else Some t)"

text \<open>
  \<^verbatim>\<open>_read\<close> of \<^verbatim>\<open>ReadySignalingTransform\<close> on the whole stream: \<^verbatim>\<open>super._read(size)\<close>
  first, then the emission of \<^verbatim>\<open>ready\<close>; a listener that calls back reaches the callback
  of \<^verbatim>\<open>_write\<close> only then.
\<close>

definition stage_read ::
  "('i, 'o, 'l, 'v) stage_code \<Rightarrow> ('i, 'o, 'l, 'v) transform_stream
     \<Rightarrow> ('i, 'o, 'l, 'v) transform_stream option" where
  "stage_read h t =
     Option.bind (Transform_read h t)
       (\<lambda>t1. case ReadySignalingTransform_read (on_ready h (answers t1)) (stage t1) of
                None \<Rightarrow> None
              | Some st' \<Rightarrow>
                  (let t2 = absorb st' t1
                   in if called_back st' t1 then transform_callback h t2 else Some t2))"

text \<open>
  \<^verbatim>\<open>read()\<close> in object mode takes one chunk. It calls \<^verbatim>\<open>_read\<close> first when the buffer
  is empty or would fall below the mark, unless the readable side has ended, has
  failed, or \<^verbatim>\<open>reading\<close> is set. (The flag \<^verbatim>\<open>needReadable\<close> adds no case: it is set
  only while the buffer is within the mark.) Without a chunk it returns \<^verbatim>\<open>null\<close>.
\<close>

definition Readable_read ::
  "('i, 'o, 'l, 'v) stage_code \<Rightarrow> ('i, 'o, 'l, 'v) transform_stream
     \<Rightarrow> (('i, 'o, 'l, 'v) transform_stream \<times> 'o option) option" where
  "Readable_read h t =
     (if rended t \<and> rbuffer t = [] then Some (t, None)
      else
        (let doRead = (length (rbuffer t) = 0 \<or> length (rbuffer t) - 1 < highWaterMark t)
                        \<and> \<not> rended t \<and> \<not> reading t \<and> errored t = None
         in Option.bind (if doRead then stage_read h (t\<lparr>reading := True\<rparr>) else Some t)
              (\<lambda>t1. Some (case rbuffer t1 of
                             [] \<Rightarrow> (t1, None)
                           | x # xs \<Rightarrow> (t1\<lparr>rbuffer := xs\<rparr>, Some x)))))"

text \<open>
  What the producer and the consumer of a stage do, in order, and what the consumer has
  been given.
\<close>

datatype 'i action = Write 'i | End | Read

fun step ::
  "('i, 'o, 'l, 'v) stage_code \<Rightarrow> 'i action
     \<Rightarrow> ('i, 'o, 'l, 'v) transform_stream \<times> 'o list
     \<Rightarrow> (('i, 'o, 'l, 'v) transform_stream \<times> 'o list) option" where
  "step h (Write chunk) (t, out) = map_option (\<lambda>t'. (t', out)) (Writable_write h chunk t)"
| "step h End (t, out) = Some (Writable_end h t, out)"
| "step h Read (t, out) =
     map_option (\<lambda>(t', r). (t', out @ (case r of None \<Rightarrow> [] | Some x \<Rightarrow> [x])))
       (Readable_read h t)"

fun perform ::
  "('i, 'o, 'l, 'v) stage_code \<Rightarrow> 'i action list
     \<Rightarrow> ('i, 'o, 'l, 'v) transform_stream \<times> 'o list
     \<Rightarrow> (('i, 'o, 'l, 'v) transform_stream \<times> 'o list) option" where
  "perform h [] c = Some c"
| "perform h (a # as) c = Option.bind (step h a c) (perform h as)"

text \<open>
  The two stages in object mode. The LineSplitter is built with
  \<^verbatim>\<open>writableHighWaterMark: batchSize\<close>, which the constructor refuses when it is
  negative, and \<^verbatim>\<open>readableHighWaterMark: 1\<close>; the Batcher with \<^verbatim>\<open>highWaterMark: 1\<close>.
\<close>

definition parser_code :: "(string, string list, parser_listener, string) stage_code" where
  "parser_code =
     \<lparr>on_transform = (\<lambda>s chunk st. Some (parser_transform s chunk st)),
      on_ready = (\<lambda>s. parser_ready),
      on_flush = parser_flush\<rparr>"

definition batcher_code :: "int \<Rightarrow> (string list, string list, batcher_listener, string list) stage_code" where
  "batcher_code B =
     \<lparr>on_transform = (\<lambda>s. batcher_transform s B),
      on_ready = (\<lambda>s. batcher_ready s B),
      on_flush = (\<lambda>s st. Inr (batcher_flush s st))\<rparr>"

definition createAccountNumberParserStream ::
  "int \<Rightarrow> range_error + (string, string list, parser_listener, string) transform_stream" where
  "createAccountNumberParserStream B =
     (if B < 0 then Inl ERR_INVALID_ARG_VALUE else Inr (new_transform 1 []))"

definition createAccountNumberBufferStream ::
  "(string list, string list, batcher_listener, string list) transform_stream" where
  "createAccountNumberBufferStream = new_transform 1 []"

text \<open>
  A stream with a write in progress, \<^verbatim>\<open>reading\<close> set and nothing in its buffer: the
  write waits for a \<^verbatim>\<open>_read\<close>, and \<^verbatim>\<open>read()\<close> waits for a \<^verbatim>\<open>push\<close>.
\<close>

definition stalled :: "('i, 'o, 'l, 'v) transform_stream \<Rightarrow> bool" where
  "stalled t \<longleftrightarrow> writing t \<and> reading t \<and> rbuffer t = [] \<and> \<not> rended t"

section \<open>Facts about the host language and the runtime\<close>

lemma split_nl_nonempty: "split_nl cs \<noteq> []"
  by (induction cs) (auto split: list.splits)

lemma js_index_simps: "js_index 0 n = 0" "0 < n \<Longrightarrow> js_index (- 1) n = n - 1"
  "0 < n \<Longrightarrow> js_index (int n - 1) n = n - 1"
  by (auto simp: js_index_def)

lemma toLines_eq: "toLines str = (butlast (split_nl str), last (split_nl str))"
proof -
  have ne: "split_nl str \<noteq> []" by (rule split_nl_nonempty)
  then have len: "0 < length (split_nl str)" by simp
  have a: "slice 0 (- 1) (split_nl str) = butlast (split_nl str)"
    using len by (simp add: slice_def js_index_simps butlast_conv_take)
  have "drop (length (split_nl str) - 1) (split_nl str) = [last (split_nl str)]"
    using ne by (metis append_butlast_last_id append_eq_conv_conj length_butlast)
  then have b: "concat (slice_from (int (length (split_nl str)) - 1) (split_nl str)) = last (split_nl str)"
    using len by (simp add: slice_from_def js_index_simps)
  show ?thesis by (simp add: toLines_def Let_def a b)
qed

lemma split_nl_append:
  "split_nl (a @ b) = butlast (split_nl a) @ ((last (split_nl a) @ hd (split_nl b)) # tl (split_nl b))"
proof (induction a)
  case Nil
  then show ?case using split_nl_nonempty [of b] by simp
next
  case (Cons c a)
  then show ?case using split_nl_nonempty [of a] split_nl_nonempty [of b]
    by (auto split: list.splits simp: butlast_append)
qed

lemma last_split_no_nl: "newline \<notin> set (last (split_nl cs))"
  by (induction cs) (auto split: list.splits)

lemma split_no_nl: "newline \<notin> set cs \<Longrightarrow> split_nl cs = [cs]"
  by (induction cs) (auto split: list.splits)


lemma split_nl_carry: "split_nl (a @ b) = butlast (split_nl a) @ split_nl (last (split_nl a) @ b)"
proof -
  have "split_nl (last (split_nl a) @ b) = (last (split_nl a) @ hd (split_nl b)) # tl (split_nl b)"
    using split_nl_append [of "last (split_nl a)" b] split_no_nl [OF last_split_no_nl [of a]]
    by simp
  then show ?thesis using split_nl_append [of a b] by simp
qed

lemma butlast_split_carry:
  "butlast (split_nl (a @ b)) = butlast (split_nl a) @ butlast (split_nl (last (split_nl a) @ b))"
  using split_nl_carry [of a b] split_nl_nonempty [of "last (split_nl a) @ b"]
  by (simp add: butlast_append)

lemma last_split_carry:
  "last (split_nl (a @ b)) = last (split_nl (last (split_nl a) @ b))"
  using split_nl_carry [of a b] split_nl_nonempty [of "last (split_nl a) @ b"]
  by simp

lemma last_split_empty: "last (split_nl cs) = [] \<longleftrightarrow> cs = [] \<or> last cs = newline"
proof (cases cs rule: rev_cases)
  case Nil
  then show ?thesis by simp
next
  case (snoc ys y)
  then show ?thesis using split_nl_append [of ys "[y]"] by auto
qed

lemma pushes_append: "pushes (es @ fs) = pushes es @ pushes fs"
  by (induction es rule: pushes.induct) auto

lemma settle_idle: "listeners st = [] \<Longrightarrow> settle run st = Some st"
  by (subst settle.simps) simp

lemma parser_write:
  assumes "listeners st = []"
  shows "\<exists>st'. settle parser_ready (parser_transform s chunk st) = Some st'
           \<and> listeners st' = []
           \<and> vars st' = last (split_nl (vars st @ toString chunk))
           \<and> pushes (trace st')
               = pushes (trace st) @ [butlast (split_nl (vars st @ toString chunk))]"
proof (cases "s (npush st)")
  case True
  then show ?thesis using assms
    by (simp add: parser_transform_def toLines_eq push_def callback_def settle_idle pushes_append)
next
  case False
  then show ?thesis using assms
    by (subst settle.simps)
       (simp add: parser_transform_def toLines_eq push_def callback_def once_ready_def
          ReadySignalingTransform_read_def parser_ready_def settle_idle pushes_append)
qed

lemma parser_writes_inv:
  "listeners st = [] \<Longrightarrow> newline \<notin> set (vars st) \<Longrightarrow>
   \<exists>st'. parser_writes s chunks st = Some st'
         \<and> listeners st' = []
         \<and> vars st' = last (split_nl (vars st @ concat (map toString chunks)))
         \<and> records (trace st')
             = records (trace st) @ butlast (split_nl (vars st @ concat (map toString chunks)))"
proof (induction chunks arbitrary: st)
  case Nil
  then show ?case by (simp add: split_no_nl)
next
  case (Cons chunk chunks)
  from parser_write [OF Cons.prems(1), of s chunk] obtain st1 where
    st1: "settle parser_ready (parser_transform s chunk st) = Some st1" "listeners st1 = []"
      "vars st1 = last (split_nl (vars st @ toString chunk))"
      "pushes (trace st1) = pushes (trace st) @ [butlast (split_nl (vars st @ toString chunk))]"
    by blast
  have "newline \<notin> set (vars st1)" using st1(3) last_split_no_nl by simp
  from Cons.IH [OF st1(2) this] obtain st' where
    st': "parser_writes s chunks st1 = Some st'" "listeners st' = []"
      "vars st' = last (split_nl (vars st1 @ concat (map toString chunks)))"
      "records (trace st')
         = records (trace st1) @ butlast (split_nl (vars st1 @ concat (map toString chunks)))"
    by blast
  have "parser_writes s (chunk # chunks) st = Some st'"
    using st1(1) st'(1) by simp
  moreover have "vars st' = last (split_nl (vars st @ concat (map toString (chunk # chunks))))"
    using st'(3) st1(3)
      last_split_carry [of "vars st @ toString chunk" "concat (map toString chunks)"]
    by simp
  moreover have "records (trace st') =
      records (trace st) @ butlast (split_nl (vars st @ concat (map toString (chunk # chunks))))"
    using st'(4) st1(3,4)
      butlast_split_carry [of "vars st @ toString chunk" "concat (map toString chunks)"]
    by (simp add: records_def)
  ultimately show ?case using st'(2) by blast
qed

lemma utf8_decode_no_newline:
  "newline \<notin> set bs \<Longrightarrow> newline \<notin> set seen \<Longrightarrow>
     newline \<notin> set (utf8_decode needed lower upper seen bs)"
  by (induction bs arbitrary: needed lower upper seen)
     (auto simp: replacement_def newline_def split: lead.splits)

lemma toString_no_newline: "newline \<notin> set chunk \<Longrightarrow> newline \<notin> set (toString chunk)"
  by (simp add: toString_def utf8_decode_no_newline)

lemma utf8_decode_ascii:
  "\<forall>b\<in>set bs. (of_char b :: nat) \<le> 0x7F \<Longrightarrow> utf8_decode 0 0x80 0xBF [] bs = bs"
  by (induction bs) (auto simp: classify_def)

lemma toString_ascii: "\<forall>b\<in>set chunk. (of_char b :: nat) \<le> 0x7F \<Longrightarrow> toString chunk = chunk"
  by (simp add: toString_def utf8_decode_ascii)

section \<open>Facts about the Batcher\<close>

lemma slice_take: "1 \<le> B \<Longrightarrow> slice 0 B xs = take (nat B) xs"
  by (auto simp: slice_def js_index_def min_def)

lemma slice_from_drop: "0 \<le> B \<Longrightarrow> slice_from B xs = drop (nat B) xs"
  by (auto simp: slice_from_def js_index_def min_def)

lemma batches_loop_stop:
  "\<not> (B \<le> int (length numbers) \<and> more') \<Longrightarrow> batches_loop s B numbers more' st = Some (numbers, more', st)"
  by (subst batches_loop.simps) auto

lemma batches_loop_spec:
  assumes B: "1 \<le> B"
  shows "\<exists>P rem more'' st'.
           batches_loop s B numbers more' st = Some (rem, more'', st')
           \<and> pushes (trace st') = pushes (trace st) @ P
           \<and> map length P = replicate (length P) (nat B)
           \<and> concat P @ rem = numbers
           \<and> listeners st' = listeners st \<and> vars st' = vars st
           \<and> (more'' \<and> more' \<longrightarrow> length rem < nat B)
           \<and> (\<not> more'' \<and> more' \<longrightarrow> P \<noteq> [])
           \<and> (\<not> more' \<longrightarrow> \<not> more'' \<and> P = [])"
proof (induction "length numbers" arbitrary: numbers more' st rule: less_induct)
  case less
  show ?case
  proof (cases "B \<le> int (length numbers) \<and> more'")
    case False
    then have "batches_loop s B numbers more' st = Some (numbers, more', st)"
      by (rule batches_loop_stop)
    moreover have "more' \<longrightarrow> length numbers < nat B" using False by auto
    ultimately show ?thesis
      by (intro exI [of _ "[]"] exI [of _ numbers] exI [of _ more'] exI [of _ st]) auto
  next
    case True
    define st1 where "st1 = snd (push s (slice 0 B numbers) st)"
    define m1 where "m1 = fst (push s (slice 0 B numbers) st)"
    have unfold: "batches_loop s B numbers more' st = batches_loop s B (drop (nat B) numbers) m1 st1"
      using True B by (subst batches_loop.simps) (simp add: st1_def m1_def slice_from_drop split: prod.splits)
    have nB: "nat B \<le> length numbers" "0 < nat B"
      using True B by linarith+
    have shorter: "length (drop (nat B) numbers) < length numbers"
      using nB by simp
    from less [OF shorter, of m1 st1] obtain P rem more'' st' where
      ih: "batches_loop s B (drop (nat B) numbers) m1 st1 = Some (rem, more'', st')"
        "pushes (trace st') = pushes (trace st1) @ P"
        "map length P = replicate (length P) (nat B)"
        "concat P @ rem = drop (nat B) numbers"
        "listeners st' = listeners st1" "vars st' = vars st1"
        "more'' \<and> m1 \<longrightarrow> length rem < nat B"
        "\<not> m1 \<longrightarrow> \<not> more'' \<and> P = []"
      by blast
    have st1: "pushes (trace st1) = pushes (trace st) @ [take (nat B) numbers]"
        "listeners st1 = listeners st" "vars st1 = vars st"
      using B by (simp_all add: st1_def push_def pushes_append slice_take)
    have len: "length (take (nat B) numbers) = nat B" using nB by simp
    let ?P = "take (nat B) numbers # P"
    have "pushes (trace st') = pushes (trace st) @ ?P" using ih(2) st1(1) by simp
    moreover have "map length ?P = replicate (length ?P) (nat B)" using ih(3) len by simp
    moreover have "concat ?P @ rem = numbers" using ih(4) by simp
    moreover have "more'' \<and> more' \<longrightarrow> length rem < nat B" using ih(7,8) by auto
    ultimately show ?thesis using unfold ih(1,5,6) st1(2,3) True
      by (intro exI [of _ ?P] exI [of _ rem] exI [of _ more''] exI [of _ st']) simp
  qed
qed


lemma pushAccountNumbersInBatches_spec:
  assumes B: "1 \<le> B"
  shows "\<exists>st' P rem.
           pushAccountNumbersInBatches s B numbers st = Some st'
           \<and> pushes (trace st') = pushes (trace st) @ P
           \<and> map length P = replicate (length P) (nat B)
           \<and> concat P @ rem = numbers
           \<and> (if P \<noteq> [] \<and> listeners st' \<noteq> listeners st
                then listeners st' = listeners st @ [PushAccountNumbersInBatches rem]
                else listeners st' = listeners st \<and> vars st' = rem \<and> length rem < nat B)"
proof -
  from batches_loop_spec [OF B, of s numbers True st] obtain P rem more'' st1 where
    l: "batches_loop s B numbers True st = Some (rem, more'', st1)"
      "pushes (trace st1) = pushes (trace st) @ P"
      "map length P = replicate (length P) (nat B)"
      "concat P @ rem = numbers"
      "listeners st1 = listeners st" "vars st1 = vars st"
      "more'' \<longrightarrow> length rem < nat B"
      "\<not> more'' \<longrightarrow> P \<noteq> []"
    by blast
  show ?thesis
  proof (cases more'')
    case True
    then have "pushAccountNumbersInBatches s B numbers st = Some (callback (st1\<lparr>vars := rem\<rparr>))"
      using l(1) by (simp add: pushAccountNumbersInBatches_def)
    then show ?thesis using l True
      by (intro exI [of _ "callback (st1\<lparr>vars := rem\<rparr>)"] exI [of _ P] exI [of _ rem])
         (simp add: callback_def pushes_append)
  next
    case False
    then have "pushAccountNumbersInBatches s B numbers st =
        Some (once_ready (PushAccountNumbersInBatches rem) st1)"
      using l(1) by (simp add: pushAccountNumbersInBatches_def)
    then show ?thesis using l False
      by (intro exI [of _ "once_ready (PushAccountNumbersInBatches rem) st1"] exI [of _ P]
            exI [of _ rem])
         (simp add: once_ready_def)
  qed
qed

lemma concat_uniform: "map length P = replicate (length P) n \<Longrightarrow> length (concat P) = length P * n"
  by (induction P) auto

lemma batcher_settle:
  assumes B: "1 \<le> B"
  shows "listeners st = [PushAccountNumbersInBatches rem] \<Longrightarrow>
         \<exists>st' P. settle (batcher_ready s B) st = Some st'
           \<and> listeners st' = []
           \<and> pushes (trace st') = pushes (trace st) @ P
           \<and> map length P = replicate (length P) (nat B)
           \<and> concat P @ vars st' = rem
           \<and> length (vars st') < nat B"
proof (induction "length rem" arbitrary: rem st rule: less_induct)
  case less
  define st2 where "st2 = st\<lparr>trace := trace st @ [SuperRead, EmitReady], listeners := []\<rparr>"
  have step: "settle (batcher_ready s B) st =
      Option.bind (pushAccountNumbersInBatches s B rem st2) (settle (batcher_ready s B))"
    using less.prems
    by (subst settle.simps)
       (simp add: ReadySignalingTransform_read_def batcher_ready_def st2_def)
  from pushAccountNumbersInBatches_spec [OF B, of s rem st2] obtain st3 P rem' where
    p: "pushAccountNumbersInBatches s B rem st2 = Some st3"
      "pushes (trace st3) = pushes (trace st2) @ P"
      "map length P = replicate (length P) (nat B)"
      "concat P @ rem' = rem"
      "if P \<noteq> [] \<and> listeners st3 \<noteq> listeners st2
       then listeners st3 = listeners st2 @ [PushAccountNumbersInBatches rem']
       else listeners st3 = listeners st2 \<and> vars st3 = rem' \<and> length rem' < nat B"
    by blast
  have tr2: "pushes (trace st2) = pushes (trace st)" "listeners st2 = []"
    by (simp_all add: st2_def pushes_append)
  show ?case
  proof (cases "P \<noteq> [] \<and> listeners st3 \<noteq> listeners st2")
    case True
    then have ls: "listeners st3 = [PushAccountNumbersInBatches rem']" using p(5) tr2 by simp
    have "length (concat P) = length P * nat B" using p(3) by (rule concat_uniform)
    moreover have "0 < length P * nat B" using True B by simp
    ultimately have "length rem' < length rem" using p(4) by (metis add.commute length_append less_add_same_cancel1)
    from less.hyps [OF this ls] obtain st' Q where
      q: "settle (batcher_ready s B) st3 = Some st'" "listeners st' = []"
        "pushes (trace st') = pushes (trace st3) @ Q"
        "map length Q = replicate (length Q) (nat B)"
        "concat Q @ vars st' = rem'" "length (vars st') < nat B"
      by blast
    have "map length (P @ Q) = replicate (length (P @ Q)) (nat B)"
      using p(3) q(4) by (simp add: replicate_add)
    then show ?thesis using step p(1,2,4) q tr2
      by (intro exI [of _ st'] exI [of _ "P @ Q"]) auto
  next
    case False
    then have d: "listeners st3 = []" "vars st3 = rem'" "length rem' < nat B"
      using p(5) tr2 by (auto split: if_splits)
    then have "settle (batcher_ready s B) st3 = Some st3" by (simp add: settle_idle)
    then show ?thesis using step p(1,2,3,4) d tr2
      by (intro exI [of _ st3] exI [of _ P]) auto
  qed
qed

lemma batcher_write:
  assumes B: "1 \<le> B" and idle: "listeners st = []"
  shows "\<exists>st' P. Option.bind (batcher_transform s B chunk st) (settle (batcher_ready s B)) = Some st'
           \<and> listeners st' = []
           \<and> pushes (trace st') = pushes (trace st) @ P
           \<and> map length P = replicate (length P) (nat B)
           \<and> concat P @ vars st' = vars st @ chunk
           \<and> length (vars st') < nat B"
proof -
  define st1 where "st1 = st\<lparr>vars := vars st @ chunk\<rparr>"
  have t: "batcher_transform s B chunk st = pushAccountNumbersInBatches s B (vars st @ chunk) st1"
    by (simp add: batcher_transform_def st1_def Let_def)
  from pushAccountNumbersInBatches_spec [OF B, of s "vars st @ chunk" st1] obtain st3 P rem' where
    p: "pushAccountNumbersInBatches s B (vars st @ chunk) st1 = Some st3"
      "pushes (trace st3) = pushes (trace st1) @ P"
      "map length P = replicate (length P) (nat B)"
      "concat P @ rem' = vars st @ chunk"
      "if P \<noteq> [] \<and> listeners st3 \<noteq> listeners st1
       then listeners st3 = listeners st1 @ [PushAccountNumbersInBatches rem']
       else listeners st3 = listeners st1 \<and> vars st3 = rem' \<and> length rem' < nat B"
    by blast
  have tr1: "pushes (trace st1) = pushes (trace st)" "listeners st1 = []"
    using idle by (simp_all add: st1_def)
  show ?thesis
  proof (cases "P \<noteq> [] \<and> listeners st3 \<noteq> listeners st1")
    case True
    then have ls: "listeners st3 = [PushAccountNumbersInBatches rem']" using p(5) tr1 by simp
    from batcher_settle [OF B ls, of s] obtain st' Q where
      q: "settle (batcher_ready s B) st3 = Some st'" "listeners st' = []"
        "pushes (trace st') = pushes (trace st3) @ Q"
        "map length Q = replicate (length Q) (nat B)"
        "concat Q @ vars st' = rem'" "length (vars st') < nat B"
      by blast
    have "map length (P @ Q) = replicate (length (P @ Q)) (nat B)"
      using p(3) q(4) by (simp add: replicate_add)
    moreover have "concat (P @ Q) @ vars st' = vars st @ chunk" using p(4) q(5) by simp
    ultimately show ?thesis using t p(1,2) q(1,2,3,6) tr1
      by (intro exI [of _ st'] exI [of _ "P @ Q"]) simp
  next
    case False
    then have d: "listeners st3 = []" "vars st3 = rem'" "length rem' < nat B"
      using p(5) tr1 by (auto split: if_splits)
    then have "settle (batcher_ready s B) st3 = Some st3" by (simp add: settle_idle)
    then show ?thesis using t p(1,2,3,4) d tr1
      by (intro exI [of _ st3] exI [of _ P]) simp
  qed
qed

lemma batcher_writes_inv:
  assumes B: "1 \<le> B"
  shows "listeners st = [] \<Longrightarrow> length (vars st) < nat B \<Longrightarrow>
         \<exists>st' P. batcher_writes s B chunks st = Some st'
           \<and> listeners st' = []
           \<and> pushes (trace st') = pushes (trace st) @ P
           \<and> map length P = replicate (length P) (nat B)
           \<and> concat P @ vars st' = vars st @ concat chunks
           \<and> length (vars st') < nat B"
proof (induction chunks arbitrary: st)
  case Nil
  then show ?case by (intro exI [of _ st] exI [of _ "[]"]) simp
next
  case (Cons chunk chunks)
  from batcher_write [OF B Cons.prems(1), of s chunk] obtain st1 P where
    p: "Option.bind (batcher_transform s B chunk st) (settle (batcher_ready s B)) = Some st1"
      "listeners st1 = []" "pushes (trace st1) = pushes (trace st) @ P"
      "map length P = replicate (length P) (nat B)"
      "concat P @ vars st1 = vars st @ chunk" "length (vars st1) < nat B"
    by blast
  from Cons.IH [OF p(2) p(6)] obtain st' Q where
    q: "batcher_writes s B chunks st1 = Some st'" "listeners st' = []"
      "pushes (trace st') = pushes (trace st1) @ Q"
      "map length Q = replicate (length Q) (nat B)"
      "concat Q @ vars st' = vars st1 @ concat chunks" "length (vars st') < nat B"
    by blast
  have "map length (P @ Q) = replicate (length (P @ Q)) (nat B)"
    using p(4) q(4) by (simp add: replicate_add)
  moreover have "concat (P @ Q) @ vars st' = vars st @ concat (chunk # chunks)"
    using p(5) q(5) by simp
  moreover have "batcher_writes s B (chunk # chunks) st = Some st'" using p(1) q(1) by simp
  ultimately show ?case using p(3) q(2,3,6)
    by (intro exI [of _ st'] exI [of _ "P @ Q"]) simp
qed

section \<open>Facts about the Formatter\<close>

lemma logged_append: "logged (es @ fs) = logged es @ logged fs"
  by (induction es rule: logged.induct) auto

lemma slice_from_Suc: "slice_from (int i + 1) xs = drop (Suc i) xs"
proof -
  have "nat (int i + 1) = Suc i" by simp
  then show ?thesis by (simp add: slice_from_def js_index_def min_def del: nat_int)
qed

lemma printSql_loop_spec:
  "m \<Longrightarrow>
   \<exists>k tr. trace (printSql_loop s statements i m st) = trace st @ tr
     \<and> pushes tr = map (\<lambda>l. l @ [newline]) (take k (drop i statements))
     \<and> logged tr = []
     \<and> (if listeners (printSql_loop s statements i m st) \<noteq> listeners st
         then listeners (printSql_loop s statements i m st)
                = listeners st @ [PrintSql (drop (i + k) statements)]
              \<and> 0 < k \<and> i + k \<le> length statements
         else k = length statements - i \<and> tr \<noteq> [] \<and> last tr = Callback)"
proof (induction s statements i m st rule: printSql_loop.induct)
  case (1 s statements i m st)
  show ?case
  proof (cases "i < length statements")
    case False
    then have "printSql_loop s statements i m st = callback st"
      using "1.prems" by (simp add: printSql_loop.simps)
    then show ?thesis using False
      by (intro exI [of _ 0] exI [of _ "[Callback]"]) (simp add: callback_def)
  next
    case True
    define st1 where "st1 = snd (push s (statements ! i @ [newline]) st)"
    have p: "push s (statements ! i @ [newline]) st = (s (npush st), st1)"
      by (simp add: st1_def push_def)
    have st1: "trace st1 = trace st @ [Push (statements ! i @ [newline]) (s (npush st))]"
      "listeners st1 = listeners st"
      by (simp_all add: st1_def push_def)
    have hd: "take (Suc k) (drop i statements) = statements ! i # take k (drop (Suc i) statements)" for k
      using True by (simp add: Cons_nth_drop_Suc [symmetric])
    show ?thesis
    proof (cases "s (npush st)")
      case False
      have r: "printSql_loop s statements i m st = once_ready (PrintSql (drop (Suc i) statements)) st1"
        using True False p by (subst printSql_loop.simps) (simp add: slice_from_Suc)
      show ?thesis
        by (intro exI [of _ 1] exI [of _ "[Push (statements ! i @ [newline]) (s (npush st))]"])
           (use hd [of 0] True in \<open>simp add: r once_ready_def st1\<close>)
    next
      case acc: True
      have r: "printSql_loop s statements i m st
                 = printSql_loop s statements (i + 1) (s (npush st)) st1"
        using True acc p by (subst printSql_loop.simps) simp
      note ih0 = "1.IH" [OF True p [symmetric], unfolded not_not, OF acc acc]
      then obtain k tr where ih:
        "trace (printSql_loop s statements (i + 1) (s (npush st)) st1) = trace st1 @ tr"
        "pushes tr = map (\<lambda>l. l @ [newline]) (take k (drop (i + 1) statements))"
        "logged tr = []"
        "if listeners (printSql_loop s statements (i + 1) (s (npush st)) st1) \<noteq> listeners st1
         then listeners (printSql_loop s statements (i + 1) (s (npush st)) st1)
                = listeners st1 @ [PrintSql (drop (i + 1 + k) statements)] \<and> 0 < k
                \<and> i + 1 + k \<le> length statements
         else k = length statements - (i + 1) \<and> tr \<noteq> [] \<and> last tr = Callback"
        by blast
      show ?thesis
        apply (intro exI [of _ "Suc k"] exI [of _ "Push (statements ! i @ [newline]) True # tr"])
        using ih True acc by (auto simp: r st1 hd split: if_splits)
    qed
  qed
qed


lemma printSql_spec:
  "\<exists>k tr. trace (printSql s statements st) = trace st @ tr
     \<and> pushes tr = map (\<lambda>l. l @ [newline]) (take k statements)
     \<and> logged tr = []
     \<and> (if listeners (printSql s statements st) \<noteq> listeners st
         then listeners (printSql s statements st) = listeners st @ [PrintSql (drop k statements)]
              \<and> 0 < k \<and> k \<le> length statements
         else k = length statements \<and> tr \<noteq> [] \<and> last tr = Callback)"
proof -
  from printSql_loop_spec [OF TrueI, of s statements 0 st] obtain k tr where
    h: "trace (printSql_loop s statements 0 True st) = trace st @ tr
       \<and> pushes tr = map (\<lambda>l. l @ [newline]) (take k (drop 0 statements))
       \<and> logged tr = []
       \<and> (if listeners (printSql_loop s statements 0 True st) \<noteq> listeners st
           then listeners (printSql_loop s statements 0 True st)
                  = listeners st @ [PrintSql (drop (0 + k) statements)]
                \<and> 0 < k \<and> 0 + k \<le> length statements
           else k = length statements - 0 \<and> tr \<noteq> [] \<and> last tr = Callback)"
    by blast
  show ?thesis
    unfolding printSql_def by (rule exI [of _ k], rule exI [of _ tr]) (use h in \<open>auto split: if_splits\<close>)
qed

lemma formatter_settle:
  "listeners st = [PrintSql rest] \<Longrightarrow>
   \<exists>st' tr. settle (formatter_ready s) st = Some st'
     \<and> listeners st' = []
     \<and> trace st' = trace st @ tr
     \<and> pushes tr = map (\<lambda>l. l @ [newline]) rest
     \<and> logged tr = []
     \<and> tr \<noteq> [] \<and> last tr = Callback"
proof (induction "length rest" arbitrary: rest st rule: less_induct)
  case less
  define st2 where "st2 = st\<lparr>trace := trace st @ [SuperRead, EmitReady], listeners := []\<rparr>"
  define st3 where "st3 = printSql s rest st2"
  have step: "settle (formatter_ready s) st = settle (formatter_ready s) st3"
    using less.prems
    by (subst settle.simps)
       (simp add: ReadySignalingTransform_read_def formatter_ready_def st2_def st3_def)
  from printSql_spec [of s rest st2] obtain k tr where
    p: "trace st3 = trace st2 @ tr"
      "pushes tr = map (\<lambda>l. l @ [newline]) (take k rest)"
      "logged tr = []"
      "if listeners st3 \<noteq> listeners st2
       then listeners st3 = listeners st2 @ [PrintSql (drop k rest)] \<and> 0 < k \<and> k \<le> length rest
       else k = length rest \<and> tr \<noteq> [] \<and> last tr = Callback"
    unfolding st3_def by blast
  have st2: "trace st2 = trace st @ [SuperRead, EmitReady]" "listeners st2 = []"
    by (simp_all add: st2_def)
  show ?case
  proof (cases "listeners st3 \<noteq> listeners st2")
    case True
    then have d: "listeners st3 = [PrintSql (drop k rest)]" "0 < k" "k \<le> length rest"
      using p(4) st2 by auto
    then have "length (drop k rest) < length rest" by simp
    from less.hyps [OF this d(1)] obtain st' tr' where
      q: "settle (formatter_ready s) st3 = Some st'" "listeners st' = []"
        "trace st' = trace st3 @ tr'"
        "pushes tr' = map (\<lambda>l. l @ [newline]) (drop k rest)"
        "logged tr' = []" "tr' \<noteq> []" "last tr' = Callback"
      by blast
    have "pushes ([SuperRead, EmitReady] @ tr @ tr') = map (\<lambda>l. l @ [newline]) rest"
      using p(2) q(4) by (simp add: pushes_append map_append [symmetric] del: map_append)
    moreover have "logged ([SuperRead, EmitReady] @ tr @ tr') = []"
      using p(3) q(5) by (simp add: logged_append)
    ultimately show ?thesis using step q p(1) st2
      by (intro exI [of _ st'] exI [of _ "[SuperRead, EmitReady] @ tr @ tr'"]) simp
  next
    case False
    then have d: "listeners st3 = []" "k = length rest" "tr \<noteq> []" "last tr = Callback"
      using p(4) st2 by auto
    have "pushes ([SuperRead, EmitReady] @ tr) = map (\<lambda>l. l @ [newline]) rest"
      using p(2) d(2) by simp
    moreover have "logged ([SuperRead, EmitReady] @ tr) = []" using p(3) by simp
    ultimately show ?thesis using step d p(1) st2
      by (intro exI [of _ st3] exI [of _ "[SuperRead, EmitReady] @ tr"]) (simp add: settle_idle)
  qed
qed

lemma formatter_write:
  assumes idle: "listeners st = []"
  shows "\<exists>st' tr. settle (formatter_ready s) (formatter_transform s batch st) = Some st'
     \<and> listeners st' = []
     \<and> trace st' = trace st @ Log (''Back-filling '' @ show_nat (length batch) @ '' account numbers'') # tr
     \<and> pushes tr = map (\<lambda>l. l @ [newline]) batch
     \<and> logged tr = []
     \<and> tr \<noteq> [] \<and> last tr = Callback"
proof -
  define st2 where "st2 = logger (''Back-filling '' @ show_nat (length batch) @ '' account numbers'') st"
  define st3 where "st3 = printSql s batch st2"
  have t: "formatter_transform s batch st = st3"
    by (simp add: formatter_transform_def st2_def st3_def)
  from printSql_spec [of s batch st2] obtain k tr where
    p: "trace st3 = trace st2 @ tr"
      "pushes tr = map (\<lambda>l. l @ [newline]) (take k batch)"
      "logged tr = []"
      "if listeners st3 \<noteq> listeners st2
       then listeners st3 = listeners st2 @ [PrintSql (drop k batch)] \<and> 0 < k \<and> k \<le> length batch
       else k = length batch \<and> tr \<noteq> [] \<and> last tr = Callback"
    unfolding st3_def by blast
  have st2: "trace st2 = trace st @ [Log (''Back-filling '' @ show_nat (length batch) @ '' account numbers'')]"
    "listeners st2 = []"
    using idle by (simp_all add: st2_def logger_def)
  show ?thesis
  proof (cases "listeners st3 \<noteq> listeners st2")
    case True
    then have d: "listeners st3 = [PrintSql (drop k batch)]"
      using p(4) st2 by auto
    from formatter_settle [OF d, of s] obtain st' tr' where
      q: "settle (formatter_ready s) st3 = Some st'" "listeners st' = []"
        "trace st' = trace st3 @ tr'"
        "pushes tr' = map (\<lambda>l. l @ [newline]) (drop k batch)"
        "logged tr' = []" "tr' \<noteq> []" "last tr' = Callback"
      by blast
    have "pushes (tr @ tr') = map (\<lambda>l. l @ [newline]) batch"
      using p(2) q(4) by (simp add: pushes_append map_append [symmetric] del: map_append)
    moreover have "logged (tr @ tr') = []"
      using p(3) q(5) by (simp add: logged_append)
    ultimately show ?thesis using t q p(1) st2
      by (intro exI [of _ st'] exI [of _ "tr @ tr'"]) simp
  next
    case False
    then have d: "listeners st3 = []" "k = length batch" "tr \<noteq> []" "last tr = Callback"
      using p(4) st2 by auto
    show ?thesis using t d p(1,2,3) st2
      by (intro exI [of _ st3] exI [of _ tr]) (simp add: settle_idle)
  qed
qed

lemma printSql_loop_declined:
  "i + d < length statements \<Longrightarrow> (\<forall>k<d. s (npush st + k)) \<Longrightarrow> \<not> s (npush st + d) \<Longrightarrow>
   listeners (printSql_loop s statements i m st)
     = listeners st @ [PrintSql (drop (Suc (i + d)) statements)]
   \<and> pushes (trace (printSql_loop s statements i m st))
     = pushes (trace st) @ map (\<lambda>l. l @ [newline]) (take (Suc d) (drop i statements))"
proof (induction d arbitrary: i st m)
  case 0
  then show ?case
    by (subst (1 2) printSql_loop.simps)
       (simp add: push_def once_ready_def slice_from_Suc pushes_append
          Cons_nth_drop_Suc [symmetric] take_Suc_conv_app_nth)
next
  case (Suc d)
  define st1 where "st1 = snd (push s (statements ! i @ [newline]) st)"
  have acc: "s (npush st)" using Suc.prems(2) by (metis add.right_neutral zero_less_Suc)
  have r: "printSql_loop s statements i m st
             = printSql_loop s statements (i + 1) True st1"
    using Suc.prems(1) acc by (subst printSql_loop.simps) (simp add: st1_def push_def)
  have st1: "npush st1 = Suc (npush st)" "listeners st1 = listeners st"
    "pushes (trace st1) = pushes (trace st) @ [statements ! i @ [newline]]"
    by (simp_all add: st1_def push_def pushes_append)
  have a: "i + 1 + d < length statements" using Suc.prems(1) by simp
  have b: "\<forall>k<d. s (npush st1 + k)" using Suc.prems(2) st1(1) by auto
  have c: "\<not> s (npush st1 + d)" using Suc.prems(3) st1(1) by simp
  have hd: "take (Suc (Suc d)) (drop i statements)
      = statements ! i # take (Suc d) (drop (i + 1) statements)"
    using Suc.prems(1) by (simp add: Cons_nth_drop_Suc [symmetric])
  from Suc.IH [OF a b c, of True] show ?case
    unfolding r using st1 hd by simp
qed


section \<open>Facts about the base class\<close>

lemma read_stalled: "stalled t \<Longrightarrow> Readable_read h t = Some (t, None)"
  by (simp add: stalled_def Readable_read_def)

lemma reads_stalled: "stalled t \<Longrightarrow> perform h (replicate n Read) (t, out) = Some (t, out)"
  by (induction n) (simp_all add: read_stalled)

lemma perform_append: "perform h (as @ bs) c = Option.bind (perform h as c) (perform h bs)"
proof (induction as arbitrary: c)
  case Nil
  then show ?case by simp
next
  case (Cons a as)
  then show ?case by (cases "step h a c") simp_all
qed

lemma stalled_forever:
  assumes "case perform h acts c of
             None \<Rightarrow> False
           | Some (t, out) \<Rightarrow> stalled t \<and> (out, finished t, errored t, buffered t) = r"
  shows "map_option (\<lambda>(t, out). (out, finished t, errored t, buffered t))
           (perform h (acts @ replicate n Read) c) = Some r"
proof -
  from assms obtain t out where
    a: "perform h acts c = Some (t, out)" "stalled t"
      "(out, finished t, errored t, buffered t) = r"
    by (auto split: option.splits)
  show ?thesis using a by (simp add: perform_append reads_stalled)
qed

section \<open>Properties of the LineSplitter\<close>

lemma emitted_records_eq:
  "emitted_records s chunks = Some (butlast (split_nl (concat (map toString chunks))))
   \<and> carry_after s chunks = Some (last (split_nl (concat (map toString chunks))))"
  using parser_writes_inv [of "new_stream []" s chunks]
  by (auto simp: emitted_records_def carry_after_def new_stream_def records_def)

lemma map_toString_well_formed: "list_all (\<lambda>c. toString c = c) chunks \<Longrightarrow> map toString chunks = chunks"
  by (induction chunks) auto

text \<open>
  Claim C4 says that every way of cutting the input into chunks, one-byte chunks
  included, gives the same Records. The character \<open>U+00E9\<close> is the two bytes \<open>C3 A9\<close>;
  followed by a line feed it is one Record when it arrives in one chunk, and another
  Record, \<open>U+FFFD\<close> twice, when the chunk boundary falls between its two bytes.
\<close>

theorem chunk_cut_inside_character:
  "emitted_records (\<lambda>k. True) [[CHR 0xC3], [CHR 0xA9, CHR 0x0A]]
     = Some [[CHR 0xEF, CHR 0xBF, CHR 0xBD, CHR 0xEF, CHR 0xBF, CHR 0xBD]]
   \<and> emitted_records (\<lambda>k. True) [[CHR 0xC3, CHR 0xA9, CHR 0x0A]]
     = Some [[CHR 0xC3, CHR 0xA9]]"
  by code_simp

text \<open>
  Claim C4 as amended (chunk-boundary independence between characters). Whatever the
  chunks the input is cut into, as long as every chunk is well-formed UTF-8 on its own,
  that is, no boundary falls inside a multi-byte character, and whatever the runtime
  answers to the pushes, the LineSplitter emits the same Records and is left with the
  same Carry: the pieces of the whole text but the last, and the last piece. Two such
  ways of cutting the same text therefore give the same Records.
\<close>

theorem chunk_boundary_independence_between_characters:
  "list_all (\<lambda>c. toString c = c) chunks \<Longrightarrow> list_all (\<lambda>c. toString c = c) chunks' \<Longrightarrow>
   concat chunks = concat chunks' \<Longrightarrow>
     emitted_records s chunks = emitted_records s' chunks'
     \<and> carry_after s chunks = carry_after s' chunks'
     \<and> emitted_records s chunks = Some (butlast (split_nl (concat chunks)))"
  using emitted_records_eq [of s chunks] emitted_records_eq [of s' chunks']
  by (simp add: map_toString_well_formed)

theorem chunk_boundary_independence_between_characters_witness:
  "emitted_records (\<lambda>k. False) [[CHR 0xC3, CHR 0xA9], ''\<newline>2'', ''\<newline>3\<newline>'']
     = emitted_records (\<lambda>k. True) [[CHR 0xC3, CHR 0xA9, CHR 0x0A], ''2'', ''\<newline>'', ''3'', ''\<newline>'']
   \<and> emitted_records (\<lambda>k. False) [[CHR 0xC3, CHR 0xA9], ''\<newline>2'', ''\<newline>3\<newline>'']
     = Some [[CHR 0xC3, CHR 0xA9], ''2'', ''3'']"
proof -
  have a: "list_all (\<lambda>c. toString c = c) [[CHR 0xC3, CHR 0xA9], ''\<newline>2'', ''\<newline>3\<newline>'']"
    by code_simp
  have b: "list_all (\<lambda>c. toString c = c)
             [[CHR 0xC3, CHR 0xA9, CHR 0x0A], ''2'', ''\<newline>'', ''3'', ''\<newline>'']"
    by code_simp
  have c: "concat [[CHR 0xC3, CHR 0xA9], ''\<newline>2'', ''\<newline>3\<newline>'']
      = concat [[CHR 0xC3, CHR 0xA9, CHR 0x0A], ''2'', ''\<newline>'', ''3'', ''\<newline>'']"
    by simp
  show ?thesis
    using chunk_boundary_independence_between_characters
            [OF a b c, of "\<lambda>k. False" "\<lambda>k. True"]
    by (auto simp: newline_def)
qed

text \<open>
  Claim C9 (the Carry holds no separator). Whatever chunks have been written, and
  whatever the runtime answered, the Carry \<^verbatim>\<open>rest\<close> holds no line feed. At the end of
  the input the LineSplitter therefore either has an empty Carry, and pushes only
  \<^verbatim>\<open>null\<close> before it calls back, or throws the left-over-data error: the branch of
  \<^verbatim>\<open>flush\<close> that pushes Records is never taken, and no Record is emitted during
  \<^verbatim>\<open>flush\<close>.
\<close>

theorem carry_invariant:
  "\<exists>st. parser_writes s chunks (new_stream []) = Some st
      \<and> newline \<notin> set (vars st)
      \<and> (case parser_flush s' st of
            Inl e \<Rightarrow> vars st \<noteq> [] \<and> e = LeftOverData
          | Inr st' \<Rightarrow> vars st = [] \<and> trace st' = trace st @ [PushEOF, Callback])"
proof -
  from parser_writes_inv [of "new_stream []" s chunks] obtain st where
    st: "parser_writes s chunks (new_stream []) = Some st"
      "vars st = last (split_nl (concat (map toString chunks)))"
    by (auto simp: new_stream_def)
  have nl: "newline \<notin> set (vars st)" using st(2) last_split_no_nl by simp
  have "toLines (vars st) = ([], vars st)"
    using nl by (simp add: toLines_eq split_no_nl)
  then have "case parser_flush s' st of
            Inl e \<Rightarrow> vars st \<noteq> [] \<and> e = LeftOverData
          | Inr st' \<Rightarrow> vars st = [] \<and> trace st' = trace st @ [PushEOF, Callback]"
    by (simp add: parser_flush_def callback_def push_null_def)
  then show ?thesis using st(1) nl by blast
qed

text \<open>
  When every write has completed and the text decoded from the chunks is not empty and
  does not end with the separator, the end-of-input step throws
  \<^verbatim>\<open>Error('Left over data')\<close>.
\<close>

lemma flush_throws_on_unterminated_tail:
  "concat (map toString chunks) \<noteq> [] \<Longrightarrow> last (concat (map toString chunks)) \<noteq> newline \<Longrightarrow>
     parser_run s chunks = Some (Inl LeftOverData)"
proof -
  assume ne: "concat (map toString chunks) \<noteq> []"
    and tail: "last (concat (map toString chunks)) \<noteq> newline"
  from parser_writes_inv [of "new_stream []" s chunks] obtain st where
    st: "parser_writes s chunks (new_stream []) = Some st"
      "vars st = last (split_nl (concat (map toString chunks)))"
    by (auto simp: new_stream_def)
  have carry: "vars st \<noteq> []" using st(2) ne tail by (simp add: last_split_empty)
  have nl: "newline \<notin> set (vars st)" using st(2) last_split_no_nl by simp
  have "toLines (vars st) = ([], vars st)"
    using nl by (simp add: toLines_eq split_no_nl)
  then have "parser_flush s st = Inl LeftOverData"
    using carry by (simp add: parser_flush_def)
  then show ?thesis using st(1) by (simp add: parser_run_def)
qed

section \<open>Properties of the command line\<close>

text \<open>
  Claim C8 (usage error). With fewer than three positional arguments the script writes
  the usage message to standard error and exits with code 1; it does nothing else: no
  stream is created and the pipeline is not run.
\<close>

theorem usage_error:
  "length args < 3 \<Longrightarrow>
     script (node # file # args)
       = [ConsoleError (''Usage: '' @ file @ '' <in> <sql> <log>''), ProcessExit 1]"
  by (simp add: script_def usage_def)

theorem usage_error_witness:
  "length [''in.txt'', ''out.sql''] < 3
   \<and> script [''node'', ''backfill-contract-events.js'', ''in.txt'', ''out.sql'']
       = [ConsoleError ''Usage: backfill-contract-events.js <in> <sql> <log>'', ProcessExit 1]"
  using usage_error [of "[''in.txt'', ''out.sql'']" "''node''" "''backfill-contract-events.js''"]
  by simp

text \<open>With the three arguments the streams are created and the pipeline is run.\<close>

lemma script_runs_main:
  "script [node, file, inp, sql, log]
     = [CreateReadStream inp, CreateWriteStream sql, CreateWriteStream log, BackfillEvents]"
  by (simp add: script_def slice_from_def js_index_def)

section \<open>Properties of the Batcher\<close>

text \<open>
  Claim C10 (empty groups). For a chunk without a separator the LineSplitter, in any
  state it can be in, still pushes a group, the empty list, and the runtime answers it
  like any other push: it takes one turn of the schedule. The Batcher, in any state it can be in between two writes, takes
  the empty group without pushing anything: it calls back at once and neither its buffer
  nor its output changes, so no empty Batch reaches the Formatter.
\<close>

theorem empty_group_emission:
  "newline \<notin> set chunk \<Longrightarrow> 1 \<le> B \<Longrightarrow>
     (\<exists>st. parser_writes s chunks (new_stream []) = Some st
        \<and> trace (parser_transform s chunk st)
            = trace st @ Push [] (s (npush st)) # (if s (npush st) then [Callback] else [])
        \<and> npush (parser_transform s chunk st) = Suc (npush st))
     \<and> (\<exists>bt. batcher_writes s' B groups (new_stream []) = Some bt
        \<and> Option.bind (batcher_transform s' B [] bt) (settle (batcher_ready s' B))
            = Some (callback bt))"
proof -
  assume nl: "newline \<notin> set chunk" and B: "1 \<le> B"
  from parser_writes_inv [of "new_stream []" s chunks] obtain st where
    st: "parser_writes s chunks (new_stream []) = Some st"
      "vars st = last (split_nl (concat (map toString chunks)))"
    by (auto simp: new_stream_def)
  have "newline \<notin> set (vars st @ toString chunk)"
    using st(2) last_split_no_nl toString_no_newline [OF nl] by simp
  then have "toLines (vars st @ toString chunk) = ([], vars st @ toString chunk)"
    by (simp add: toLines_eq split_no_nl)
  then have p: "trace (parser_transform s chunk st)
            = trace st @ Push [] (s (npush st)) # (if s (npush st) then [Callback] else [])
        \<and> npush (parser_transform s chunk st) = Suc (npush st)"
    by (simp add: parser_transform_def push_def callback_def once_ready_def)
  from batcher_writes_inv [OF B, of "new_stream []" s' groups] B obtain bt where
    bt: "batcher_writes s' B groups (new_stream []) = Some bt" "listeners bt = []"
      "length (vars bt) < nat B"
    by (auto simp: new_stream_def)
  have "\<not> (B \<le> int (length (vars bt)) \<and> True)" using bt(3) by linarith
  then have "batches_loop s' B (vars bt) True bt = Some (vars bt, True, bt)"
    by (rule batches_loop_stop)
  then have "batcher_transform s' B [] bt = Some (callback bt)"
    by (simp add: batcher_transform_def pushAccountNumbersInBatches_def)
  then have "Option.bind (batcher_transform s' B [] bt) (settle (batcher_ready s' B))
            = Some (callback bt)"
    using bt(2) by (simp add: settle_idle callback_def)
  then show ?thesis using st(1) p bt(1) by blast
qed

theorem empty_group_emission_witness:
  "newline \<notin> set ''12'' \<and> (1::int) \<le> 2
   \<and> (\<exists>st. parser_writes (\<lambda>k. True) [''7\<newline>''] (new_stream []) = Some st
        \<and> trace (parser_transform (\<lambda>k. True) ''12'' st)
            = trace st @ Push [] True # [Callback]
        \<and> npush (parser_transform (\<lambda>k. True) ''12'' st) = Suc (npush st))
   \<and> (\<exists>bt. batcher_writes (\<lambda>k. True) 2 [[''7'']] (new_stream []) = Some bt
        \<and> Option.bind (batcher_transform (\<lambda>k. True) 2 [] bt) (settle (batcher_ready (\<lambda>k. True) 2))
            = Some (callback bt))"
proof -
  have a: "newline \<notin> set ''12''" by (simp add: newline_def)
  have b: "(1::int) \<le> 2" by simp
  show ?thesis
    using a b empty_group_emission [OF a b, of "\<lambda>k. True" "[''7\<newline>'']" "\<lambda>k. True" "[[''7'']]"]
    by simp
qed



section \<open>Properties of the Formatter\<close>

text \<open>
  Claim C6 (Formatter resumption). For every Batch and every schedule, a Formatter with
  no listener waiting writes, once every decline has been followed by its readiness
  signal, each Record of the Batch exactly once and in order. When the write of line
  \<open>i\<close> is the first to be declined, the lines up to \<open>i\<close> have been written and the
  listener that waits holds the lines from \<open>i + 1\<close> on; the next \<^verbatim>\<open>_read\<close> continues
  with line \<open>i + 1\<close>: what has been written then is a longer prefix of the Batch.
\<close>

theorem formatter_resumption:
  assumes idle: "listeners st = []"
  shows "(\<exists>st'. settle (formatter_ready s) (formatter_transform s batch st) = Some st'
            \<and> pushes (trace st') = pushes (trace st) @ map (\<lambda>l. l @ [newline]) batch
            \<and> listeners st' = [])
       \<and> (i < length batch \<and> (\<forall>k<i. s (npush st + k)) \<and> \<not> s (npush st + i) \<longrightarrow>
            listeners (formatter_transform s batch st) = [PrintSql (drop (Suc i) batch)]
            \<and> pushes (trace (formatter_transform s batch st))
                = pushes (trace st) @ map (\<lambda>l. l @ [newline]) (take (Suc i) batch)
            \<and> (\<exists>st'' k. ReadySignalingTransform_read (formatter_ready s)
                            (formatter_transform s batch st) = Some st''
                  \<and> pushes (trace st'')
                      = pushes (trace st) @ map (\<lambda>l. l @ [newline]) (take k batch)
                  \<and> Suc i \<le> k \<and> (Suc i < length batch \<longrightarrow> Suc i < k)))"
proof (intro conjI impI)
  from formatter_write [OF idle, of s batch]
  show "\<exists>st'. settle (formatter_ready s) (formatter_transform s batch st) = Some st'
            \<and> pushes (trace st') = pushes (trace st) @ map (\<lambda>l. l @ [newline]) batch
            \<and> listeners st' = []"
    by (auto simp: pushes_append)
next
  assume d: "i < length batch \<and> (\<forall>k<i. s (npush st + k)) \<and> \<not> s (npush st + i)"
  define st0 where
    "st0 = logger (''Back-filling '' @ show_nat (length batch) @ '' account numbers'') st"
  have st0: "npush st0 = npush st" "listeners st0 = []" "pushes (trace st0) = pushes (trace st)"
    using idle by (simp_all add: st0_def logger_def pushes_append)
  have t: "formatter_transform s batch st = printSql_loop s batch 0 True st0"
    by (simp add: formatter_transform_def printSql_def st0_def)
  from printSql_loop_declined [of 0 i batch s st0 True] d st0
  have dec: "listeners (formatter_transform s batch st) = [PrintSql (drop (Suc i) batch)]"
    "pushes (trace (formatter_transform s batch st))
       = pushes (trace st) @ map (\<lambda>l. l @ [newline]) (take (Suc i) batch)"
    by (simp_all add: t)
  show "listeners (formatter_transform s batch st) = [PrintSql (drop (Suc i) batch)]"
    by (rule dec(1))
  show "pushes (trace (formatter_transform s batch st))
                = pushes (trace st) @ map (\<lambda>l. l @ [newline]) (take (Suc i) batch)"
    by (rule dec(2))
  define st1 where "st1 = formatter_transform s batch st"
  define st2 where "st2 = st1\<lparr>trace := trace st1 @ [SuperRead, EmitReady], listeners := []\<rparr>"
  have rd: "ReadySignalingTransform_read (formatter_ready s) st1
      = Some (printSql s (drop (Suc i) batch) st2)"
    using dec(1)
    by (simp add: ReadySignalingTransform_read_def formatter_ready_def st1_def st2_def)
  from printSql_spec [of s "drop (Suc i) batch" st2] obtain k tr where
    p: "trace (printSql s (drop (Suc i) batch) st2) = trace st2 @ tr"
      "pushes tr = map (\<lambda>l. l @ [newline]) (take k (drop (Suc i) batch))"
      "if listeners (printSql s (drop (Suc i) batch) st2) \<noteq> listeners st2
       then listeners (printSql s (drop (Suc i) batch) st2)
              = listeners st2 @ [PrintSql (drop k (drop (Suc i) batch))]
            \<and> 0 < k \<and> k \<le> length (drop (Suc i) batch)
       else k = length (drop (Suc i) batch) \<and> tr \<noteq> [] \<and> last tr = Callback"
    by blast
  have k: "Suc i < length batch \<longrightarrow> 0 < k" using p(3) by (auto split: if_splits)
  have tk: "take (Suc i) batch @ take k (drop (Suc i) batch) = take (Suc i + k) batch"
    by (rule take_add [symmetric])
  have "pushes (trace (printSql s (drop (Suc i) batch) st2))
      = pushes (trace st) @ map (\<lambda>l. l @ [newline]) (take (Suc i) batch @ take k (drop (Suc i) batch))"
    using p(1,2) dec(2)
    by (simp add: st2_def st1_def pushes_append)
  then have "pushes (trace (printSql s (drop (Suc i) batch) st2))
      = pushes (trace st) @ map (\<lambda>l. l @ [newline]) (take (Suc i + k) batch)"
    by (simp only: tk)
  then show "\<exists>st'' k. ReadySignalingTransform_read (formatter_ready s)
                            (formatter_transform s batch st) = Some st''
                  \<and> pushes (trace st'')
                      = pushes (trace st) @ map (\<lambda>l. l @ [newline]) (take k batch)
                  \<and> Suc i \<le> k \<and> (Suc i < length batch \<longrightarrow> Suc i < k)"
    using rd k unfolding st1_def
    by (intro exI [of _ "printSql s (drop (Suc i) batch) st2"] exI [of _ "Suc i + k"]) simp
qed

theorem formatter_resumption_witness:
  "listeners (formatter_transform (\<lambda>k. k \<noteq> 1) [''1'', ''2'', ''3''] (new_stream ()))
     = [PrintSql [''3'']]
   \<and> pushes (trace (formatter_transform (\<lambda>k. k \<noteq> 1) [''1'', ''2'', ''3''] (new_stream ())))
     = [''1\<newline>'', ''2\<newline>'']
   \<and> (\<exists>st'. settle (formatter_ready (\<lambda>k. k \<noteq> 1))
                (formatter_transform (\<lambda>k. k \<noteq> 1) [''1'', ''2'', ''3''] (new_stream ())) = Some st'
          \<and> pushes (trace st') = [''1\<newline>'', ''2\<newline>'', ''3\<newline>'']
          \<and> listeners st' = [])"
proof -
  have idle: "listeners (new_stream () :: formatter) = []" by (simp add: new_stream_def)
  have d: "1 < length [''1'', ''2'', ''3''] \<and> (\<forall>k<1. npush (new_stream () :: formatter) + k \<noteq> 1)
      \<and> \<not> npush (new_stream () :: formatter) + 1 \<noteq> 1"
    by (simp add: new_stream_def)
  show ?thesis
    using formatter_resumption [OF idle, of "\<lambda>k. k \<noteq> 1" "[''1'', ''2'', ''3'']" 1] d
    by (simp add: new_stream_def newline_def)
qed

text \<open>
  Claim C7 says that the Formatter writes the lines of a Batch and then reports to the
  logger. On the Batch \<open>[1, 2]\<close> the report is the first thing it does.
\<close>

theorem formatter_reports_before_writing:
  "map_option trace
     (settle (formatter_ready (\<lambda>k. True))
        (formatter_transform (\<lambda>k. True) [''1'', ''2''] (new_stream ())))
   = Some [Log ''Back-filling 2 account numbers'',
           Push ''1\<newline>'' True, Push ''2\<newline>'' True, Callback]"
  by code_simp

text \<open>
  Claim C7 as amended (report, then write). For each Batch the Formatter first reports
  \<^verbatim>\<open>Back-filling <count> account numbers\<close> to the logger, where the count is the number
  of Records of the Batch, and then writes one newline-terminated line per Record, in
  Record order; it reports nothing more for that Batch.
\<close>

theorem formatter_report_then_write:
  "listeners st = [] \<Longrightarrow>
     \<exists>st' tr. settle (formatter_ready s) (formatter_transform s batch st) = Some st'
       \<and> trace st'
           = trace st @ Log (''Back-filling '' @ show_nat (length batch) @ '' account numbers'') # tr
       \<and> pushes tr = map (\<lambda>l. l @ [newline]) batch
       \<and> logged tr = []"
  using formatter_write [of st s batch] by blast

theorem formatter_report_then_write_witness:
  "\<exists>st' tr. settle (formatter_ready (\<lambda>k. False))
               (formatter_transform (\<lambda>k. False) [''1'', ''2''] (new_stream ())) = Some st'
       \<and> trace st' = Log ''Back-filling 2 account numbers'' # tr
       \<and> pushes tr = [''1\<newline>'', ''2\<newline>'']
       \<and> logged tr = []"
proof -
  have idle: "listeners (new_stream () :: formatter) = []" by (simp add: new_stream_def)
  have n: "show_nat (Suc (Suc 0)) = ''2''" by code_simp
  show ?thesis
    using formatter_report_then_write [OF idle, of "\<lambda>k. False" "[''1'', ''2'']"]
    by (simp add: new_stream_def newline_def n)
qed

section \<open>Closing a stage\<close>




section \<open>A write that never completes\<close>

text \<open>
  Claim C1 asks for every Record in the output, whatever the slowness of the consumer.
  The LineSplitter is written the first of two Records and declined; the consumer
  reads, which calls \<^verbatim>\<open>_read\<close>: the base class has no callback to call, \<^verbatim>\<open>ready\<close> is
  emitted, and the listener calls the callback of the write while the chunk is still in
  the buffer, so the callback is kept for the next \<^verbatim>\<open>_read\<close>. No \<^verbatim>\<open>_read\<close> follows,
  since nothing is pushed any more. The second Record is written and the stream ended,
  and however often the consumer reads, it is given the first Record only: the second
  stays in the buffer of the writable side and the stream neither finishes nor fails.
  The Batcher loses the Batch after the first in the same way.
\<close>

theorem records_lost_in_stall:
  "createAccountNumberParserStream (batchSize (Some 2)) = Inr (new_transform 1 [])
   \<and> map_option (\<lambda>(t, out). (out, finished t, errored t, buffered t))
     (perform parser_code ([Write ''1\<newline>'', Read, Write ''2\<newline>'', End] @ replicate n Read)
        (new_transform 1 [], []))
   = Some ([[''1'']], False, None, [''2\<newline>''])
   \<and> map_option (\<lambda>(t, out). (out, finished t, errored t, buffered t))
     (perform (batcher_code (batchSize (Some 2)))
        ([Write [''1'', ''2''], Read, Write [''3''], End] @ replicate n Read)
        (createAccountNumberBufferStream, []))
   = Some ([[''1'', ''2'']], False, None, [[''3'']])"
proof (intro conjI)
  show "createAccountNumberParserStream (batchSize (Some 2)) = Inr (new_transform 1 [])"
    by (simp add: createAccountNumberParserStream_def batchSize_def)
next
  have "case perform parser_code [Write ''1\<newline>'', Read, Write ''2\<newline>'', End] (new_transform 1 [], []) of
          None \<Rightarrow> False
        | Some (t, out) \<Rightarrow> stalled t
            \<and> (out, finished t, errored t, buffered t) = ([[''1'']], False, None, [''2\<newline>''])"
    by code_simp
  then show "map_option (\<lambda>(t, out). (out, finished t, errored t, buffered t))
     (perform parser_code ([Write ''1\<newline>'', Read, Write ''2\<newline>'', End] @ replicate n Read)
        (new_transform 1 [], []))
   = Some ([[''1'']], False, None, [''2\<newline>''])"
    by (rule stalled_forever)
next
  have "case perform (batcher_code (batchSize (Some 2))) [Write [''1'', ''2''], Read, Write [''3''], End]
               (createAccountNumberBufferStream, []) of
          None \<Rightarrow> False
        | Some (t, out) \<Rightarrow> stalled t
            \<and> (out, finished t, errored t, buffered t) = ([[''1'', ''2'']], False, None, [[''3'']])"
    by code_simp
  then show "map_option (\<lambda>(t, out). (out, finished t, errored t, buffered t))
     (perform (batcher_code (batchSize (Some 2)))
        ([Write [''1'', ''2''], Read, Write [''3''], End] @ replicate n Read)
        (createAccountNumberBufferStream, []))
   = Some ([[''1'', ''2'']], False, None, [[''3'']])"
    by (rule stalled_forever)
qed

text \<open>
  Claim C3 asks that an input without its last separator ends in the left-over-data
  error. The LineSplitter, as the script builds it, is written two Records and
  declined, the consumer reads once, and the unterminated tail is written and the
  stream ended: the write of the first chunk never completes, \<^verbatim>\<open>flush\<close> is never
  reached, and however often the consumer reads, no error is raised and the tail is
  dropped without a word.
\<close>

theorem unterminated_tail_lost_in_stall:
  "createAccountNumberParserStream (batchSize None) = Inr (new_transform 1 [])
   \<and> map_option (\<lambda>(t, out). (out, finished t, errored t, buffered t))
     (perform parser_code ([Write ''1\<newline>2\<newline>'', Read, Write ''3'', End] @ replicate n Read)
        (new_transform 1 [], []))
   = Some ([[''1'', ''2'']], False, None, [''3''])"
proof
  show "createAccountNumberParserStream (batchSize None) = Inr (new_transform 1 [])"
    by (simp add: createAccountNumberParserStream_def batchSize_def)
next
  have "case perform parser_code [Write ''1\<newline>2\<newline>'', Read, Write ''3'', End] (new_transform 1 [], []) of
          None \<Rightarrow> False
        | Some (t, out) \<Rightarrow> stalled t
            \<and> (out, finished t, errored t, buffered t) = ([[''1'', ''2'']], False, None, [''3''])"
    by code_simp
  then show "map_option (\<lambda>(t, out). (out, finished t, errored t, buffered t))
     (perform parser_code ([Write ''1\<newline>2\<newline>'', Read, Write ''3'', End] @ replicate n Read)
        (new_transform 1 [], []))
   = Some ([[''1'', ''2'']], False, None, [''3''])"
    by (rule stalled_forever)
qed

text \<open>
  The same chunks written and the stream ended before the consumer reads for the first
  time: every callback finds the writable side ended and completes its write, so all
  Records arrive, and the unterminated tail raises its error.
\<close>

lemma ended_before_read_goes_through:
  "map_option (\<lambda>(t, out). (out, finished t, errored t, buffered t))
     (perform parser_code [Write ''1\<newline>2\<newline>'', Write ''3\<newline>'', End, Read, Read, Read]
        (new_transform 1 [], []))
   = Some ([[''1'', ''2''], [''3'']], True, None, [])
   \<and> map_option (\<lambda>(t, out). (out, finished t, errored t, buffered t))
     (perform parser_code [Write ''1\<newline>2\<newline>'', Write ''3'', End, Read, Read]
        (new_transform 1 [], []))
   = Some ([[''1'', ''2''], []], False, Some (Thrown LeftOverData), [])"
  by code_simp

end
